theory Spec2Isabelle
  imports Complex_Main "HOL-Library.Word"
begin

unbundle bit_operations_syntax

section \<open>Data model\<close>

text \<open>
  The module is Python 2 (\<open>long\<close>, \<open>struct.unpack('B', digest[-1])\<close>): a \<open>str\<close> is a
  sequence of bytes, an \<open>int\<close>/\<open>long\<close> is an unbounded integer, and \<open>/\<close> between
  integers is floor division.
\<close>

type_synonym byte = "8 word"
type_synonym bytes = "byte list"
type_synonym u32 = "32 word"

text \<open>The exceptions that the functions of \<open>totp.py\<close> can let escape.\<close>

datatype error = ZeroDivisionError | StructError | IndexError

text \<open>
  The \<open>message\<close> argument of \<open>hmac_digest\<close> is dispatched on its run-time type
  (\<open>isinstance(message, int) or isinstance(message, long)\<close>).
\<close>

datatype message = IntMsg int | BytesMsg bytes

definition DEFAULT_TIME_STEP :: int where
  "DEFAULT_TIME_STEP = 30"

definition DEFAULT_EPOCH :: int where
  "DEFAULT_EPOCH = 0"

definition DEFAULT_DIGITS :: nat where
  "DEFAULT_DIGITS = 6"

section \<open>\<open>struct\<close>: big-endian packing and unpacking\<close>

text \<open>
  \<open>be_bytes k n\<close> is the \<open>k\<close> low-order bytes of \<open>n\<close>, most significant first;
  \<open>be_int\<close> reads a byte string as an unsigned big-endian integer.
\<close>

fun be_bytes :: "nat \<Rightarrow> int \<Rightarrow> bytes" where
  "be_bytes 0 n = []"
| "be_bytes (Suc k) n = be_bytes k (n div 256) @ [word_of_int n]"

definition be_int :: "bytes \<Rightarrow> int" where
  "be_int bs = foldl (\<lambda>acc b. acc * 256 + uint b) 0 bs"

text \<open>
  \<open>struct.pack('>Q', n)\<close>: eight bytes, big-endian, unsigned; \<open>struct.error\<close> when
  \<open>n\<close> is outside \<open>0 .. 2^64 - 1\<close>.
\<close>

definition pack_Q :: "int \<Rightarrow> error + bytes" where
  "pack_Q n = (if n < 0 \<or> 2 ^ 64 \<le> n then Inl StructError else Inr (be_bytes 8 n))"

text \<open>
  \<open>struct.unpack('>I', s)[0]\<close>: \<open>struct.error\<close> unless \<open>s\<close> has exactly four bytes.
\<close>

definition unpack_I :: "bytes \<Rightarrow> error + int" where
  "unpack_I s = (if length s \<noteq> 4 then Inl StructError else Inr (be_int s))"

section \<open>\<open>hashlib.sha1\<close>\<close>

text \<open>
  The default hash of \<open>hmac_digest\<close> and \<open>hotp\<close> is the standard library's SHA-1
  (FIPS 180-4, RFC 3174). The message is padded with \<open>0x80\<close>, zero bytes and its
  length in bits as eight big-endian bytes, to a multiple of 64 bytes; each 64-byte
  block is sixteen big-endian 32-bit words, extended to eighty by the message
  schedule, kept here as a sliding window of sixteen words.
\<close>

definition sha1_pad :: "bytes \<Rightarrow> bytes" where
  "sha1_pad m =
     m @ [0x80] @ replicate ((64 - (length m + 9) mod 64) mod 64) 0
       @ be_bytes 8 (8 * int (length m))"

fun be_words :: "bytes \<Rightarrow> u32 list" where
  "be_words (a # b # c # d # bs) =
     (push_bit 24 (ucast a) OR push_bit 16 (ucast b) OR push_bit 8 (ucast c) OR ucast d)
       # be_words bs"
| "be_words _ = []"

definition sha1_f :: "nat \<Rightarrow> u32 \<Rightarrow> u32 \<Rightarrow> u32 \<Rightarrow> u32" where
  "sha1_f t b c d =
     (if t < 20 then (b AND c) OR (NOT b AND d)
      else if t < 40 then b XOR c XOR d
      else if t < 60 then (b AND c) OR (b AND d) OR (c AND d)
      else b XOR c XOR d)"

definition sha1_K :: "nat \<Rightarrow> u32" where
  "sha1_K t =
     (if t < 20 then 0x5A827999
      else if t < 40 then 0x6ED9EBA1
      else if t < 60 then 0x8F1BBCDC
      else 0xCA62C1D6)"

type_synonym sha1_state = "u32 \<times> u32 \<times> u32 \<times> u32 \<times> u32"

text \<open>
  \<open>schedule n\<close> emits the first word of the window and shifts in
  \<open>W(t) = rotl 1 (W(t-3) xor W(t-8) xor W(t-14) xor W(t-16))\<close>, \<open>n\<close> times; the last
  window follows as it is. From the sixteen words of a block, \<open>schedule 64\<close> is the
  eighty words \<open>W(0) .. W(79)\<close>.
\<close>

fun schedule :: "nat \<Rightarrow> u32 list \<Rightarrow> u32 list" where
  "schedule (Suc n)
     (w0 # w1 # w2 # w3 # w4 # w5 # w6 # w7 # w8 # w9 # w10 # w11 # w12 # w13 # w14 # w15 # ws) =
     w0 # schedule n
            [w1, w2, w3, w4, w5, w6, w7, w8, w9, w10, w11, w12, w13, w14, w15,
             word_rotl 1 (w13 XOR w8 XOR w2 XOR w0)]"
| "schedule n ws = ws"

fun sha1_rounds :: "nat \<Rightarrow> u32 list \<Rightarrow> sha1_state \<Rightarrow> sha1_state" where
  "sha1_rounds t [] s = s"
| "sha1_rounds t (w # ws) (a, b, c, d, e) =
     sha1_rounds (t + 1) ws
       (word_rotl 5 a + sha1_f t b c d + e + sha1_K t + w, a, word_rotl 30 b, c, d)"

definition sha1_block :: "sha1_state \<Rightarrow> bytes \<Rightarrow> sha1_state" where
  "sha1_block h block =
     (case h of (h0, h1, h2, h3, h4) \<Rightarrow>
        (case sha1_rounds 0 (schedule 64 (be_words block)) h of (a, b, c, d, e) \<Rightarrow>
           (h0 + a, h1 + b, h2 + c, h3 + d, h4 + e)))"

function sha1_blocks :: "sha1_state \<Rightarrow> bytes \<Rightarrow> sha1_state" where
  "sha1_blocks h m =
     (if length m < 64 then h else sha1_blocks (sha1_block h (take 64 m)) (drop 64 m))"
  by pat_completeness auto
termination
  by (relation "measure (\<lambda>(h, m). length m)") auto

declare sha1_blocks.simps [simp del]

definition word_bytes :: "u32 \<Rightarrow> bytes" where
  "word_bytes w = [ucast (drop_bit 24 w), ucast (drop_bit 16 w), ucast (drop_bit 8 w), ucast w]"

definition sha1_init :: sha1_state where
  "sha1_init = (0x67452301, 0xEFCDAB89, 0x98BADCFE, 0x10325476, 0xC3D2E1F0)"

definition state_bytes :: "sha1_state \<Rightarrow> bytes" where
  "state_bytes s = (case s of (a, b, c, d, e) \<Rightarrow> concat (map word_bytes [a, b, c, d, e]))"

definition sha1_digest :: "bytes \<Rightarrow> bytes" where
  "sha1_digest m = state_bytes (sha1_blocks sha1_init (sha1_pad m))"

section \<open>\<open>totp.py\<close>\<close>

subsection \<open>\<open>time_steps\<close>\<close>

text \<open>
  \<open>clock\<close> is the value \<open>current_timestamp_utc()\<close> would return; it is read only when
  \<open>current\<close> is \<open>None\<close>. The arguments are integers, on which \<open>long\<close> and \<open>int\<close> are
  the identity. The division is Python 2's integer \<open>/\<close>: it rounds towards minus
  infinity and raises \<open>ZeroDivisionError\<close> on a zero divisor.
\<close>

definition time_steps :: "int \<Rightarrow> int option \<Rightarrow> int \<Rightarrow> int \<Rightarrow> error + int" where
  "time_steps clock current epoch step =
     (let current = (case current of None \<Rightarrow> clock | Some c \<Rightarrow> c)
      in if step = 0 then Inl ZeroDivisionError
         else Inr ((current - epoch) div step))"

subsection \<open>\<open>hmac_digest\<close>\<close>

text \<open>
  A hash constructor of \<open>hashlib\<close>, as far as \<open>hmac\<close> uses it: the digest of a byte
  string and the block size.
\<close>

record hashfunc =
  digest_of :: "bytes \<Rightarrow> bytes"
  block_size :: nat

text \<open>
  \<open>hmac.new(key, msg, digestmod).digest()\<close> of the Python 2.7 standard library
  (RFC 2104): a block size below 16 is replaced by 64, a key longer than a block is
  hashed first, the key is padded with zero bytes to a full block, and the digest is
  \<open>H((key xor opad) + H((key xor ipad) + msg))\<close>.
\<close>

definition hmac_new_digest :: "bytes \<Rightarrow> bytes \<Rightarrow> hashfunc \<Rightarrow> bytes" where
  "hmac_new_digest key msg h =
     (let blocksize = (if block_size h < 16 then 64 else block_size h);
          key = (if length key > blocksize then digest_of h key else key);
          key = key @ replicate (blocksize - length key) 0;
          inner = digest_of h (map (\<lambda>b. b XOR 0x36) key @ msg)
      in digest_of h (map (\<lambda>b. b XOR 0x5C) key @ inner))"

definition hmac_digest :: "bytes \<Rightarrow> message \<Rightarrow> hashfunc \<Rightarrow> error + bytes" where
  "hmac_digest key message h =
     (case message of
        IntMsg n \<Rightarrow>
          (case pack_Q n of
             Inl e \<Rightarrow> Inl e
           | Inr m \<Rightarrow> Inr (hmac_new_digest key m h))
      | BytesMsg m \<Rightarrow> Inr (hmac_new_digest key m h))"

text \<open>\<open>hashlib.sha1\<close> as a hash constructor: 64-byte blocks, 20-byte digests.\<close>

definition sha1 :: hashfunc where
  "sha1 = \<lparr>digest_of = sha1_digest, block_size = 64\<rparr>"

subsection \<open>\<open>truncate\<close>\<close>

text \<open>
  \<open>digest[-1]\<close> raises \<open>IndexError\<close> on an empty string; the slice
  \<open>digest[offset:offset+4]\<close> never raises but may be shorter than four bytes, and then
  \<open>struct.unpack('>I', ...)\<close> raises. \<open>~(1 << 31)\<close> is the integer \<open>- 2^31 - 1\<close>.
  \<open>digits\<close> ranges over the naturals: with a negative exponent \<open>10 ** digits\<close> is a
  float, and the rest of the computation is floating-point arithmetic, which is not
  part of this development.
\<close>

definition truncate :: "bytes \<Rightarrow> nat \<Rightarrow> error + int" where
  "truncate digest digits =
     (if digest = [] then Inl IndexError
      else
        let byte = uint (last digest);
            offset = byte AND 15;
            codestr = take 4 (drop (nat offset) digest)
        in case unpack_I codestr of
             Inl e \<Rightarrow> Inl e
           | Inr code \<Rightarrow>
               let code = code AND NOT (push_bit 31 1)
               in Inr (code mod 10 ^ digits))"

subsection \<open>\<open>hotp\<close>\<close>

definition hotp :: "bytes \<Rightarrow> message \<Rightarrow> hashfunc \<Rightarrow> error + int" where
  "hotp key counter h =
     (case hmac_digest key counter h of
        Inl e \<Rightarrow> Inl e
      | Inr digest \<Rightarrow> truncate digest DEFAULT_DIGITS)"

subsection \<open>\<open>totp\<close>\<close>

text \<open>\<open>totp\<close> passes no hash function to \<open>hotp\<close>, which then uses its default, SHA-1.\<close>

definition totp :: "int \<Rightarrow> bytes \<Rightarrow> int option \<Rightarrow> int \<Rightarrow> int \<Rightarrow> error + int" where
  "totp clock key current epoch step =
     (case time_steps clock current epoch step of
        Inl e \<Rightarrow> Inl e
      | Inr counter \<Rightarrow> hotp key (IntMsg counter) sha1)"

text \<open>The bytes of an ASCII string literal.\<close>

definition ascii :: "string \<Rightarrow> bytes" where
  "ascii s = map of_char s"

section \<open>\<open>uri.py\<close>\<close>

subsection \<open>\<open>base64.b32encode\<close>\<close>

text \<open>
  The standard library's Base32 encoder (RFC 4648, section 6). Five bytes are a 40-bit
  number, written as eight characters of the alphabet, five bits each, most significant
  first. A last group of 4, 3, 2 or 1 bytes is filled with zero bytes, and the last 1,
  3, 4 or 6 characters of its encoding are replaced by \<open>=\<close>.
\<close>

definition b32tab :: string where
  "b32tab = ''ABCDEFGHIJKLMNOPQRSTUVWXYZ234567''"

fun quintets :: "nat \<Rightarrow> int \<Rightarrow> int list" where
  "quintets 0 n = []"
| "quintets (Suc k) n = quintets k (n div 32) @ [n mod 32]"

definition b32_quantum :: "bytes \<Rightarrow> string" where
  "b32_quantum q = map (\<lambda>v. b32tab ! nat v) (quintets 8 (be_int q))"

fun b32encode :: "bytes \<Rightarrow> string" where
  "b32encode (b0 # b1 # b2 # b3 # b4 # rest) = b32_quantum [b0, b1, b2, b3, b4] @ b32encode rest"
| "b32encode [b0, b1, b2, b3] = take 7 (b32_quantum [b0, b1, b2, b3, 0]) @ ''=''"
| "b32encode [b0, b1, b2] = take 5 (b32_quantum [b0, b1, b2, 0, 0]) @ ''===''"
| "b32encode [b0, b1] = take 4 (b32_quantum [b0, b1, 0, 0, 0]) @ ''====''"
| "b32encode [b0] = take 2 (b32_quantum [b0, 0, 0, 0, 0]) @ ''======''"
| "b32encode [] = []"

subsection \<open>\<open>urllib.quote\<close>, \<open>urllib.quote_plus\<close>, \<open>urllib.urlencode\<close>\<close>

text \<open>
  \<open>quote(s, safe)\<close> keeps letters, digits, \<open>_.-\<close> and the characters of \<open>safe\<close>, and
  writes every other byte as \<open>%XX\<close> in upper-case hexadecimal. \<open>quote_plus\<close> has no
  safe characters of its own and writes a space as \<open>+\<close>. \<open>urlencode\<close> joins
  \<open>quote_plus(str(k)) + '=' + quote_plus(str(v))\<close> for the items of the query with
  \<open>&\<close>.
\<close>

definition always_safe :: string where
  "always_safe = ''ABCDEFGHIJKLMNOPQRSTUVWXYZabcdefghijklmnopqrstuvwxyz0123456789_.-''"

definition hex_digit :: "nat \<Rightarrow> char" where
  "hex_digit d = ''0123456789ABCDEF'' ! d"

definition quoter :: "string \<Rightarrow> char \<Rightarrow> string" where
  "quoter safe c =
     (if c \<in> set (always_safe @ safe) then [c]
      else [CHR ''%'', hex_digit (of_char c div 16), hex_digit (of_char c mod 16)])"

definition quote :: "string \<Rightarrow> string \<Rightarrow> string" where
  "quote s safe = concat (map (quoter safe) s)"

definition quote_plus :: "string \<Rightarrow> string" where
  "quote_plus s =
     (if CHR '' '' \<in> set s
      then map (\<lambda>c. if c = CHR '' '' then CHR ''+'' else c) (quote s '' '')
      else quote s [])"

text \<open>\<open>quoter_plus\<close> is what \<open>quote_plus\<close> does to one character.\<close>

definition quoter_plus :: "char \<Rightarrow> string" where
  "quoter_plus c = (if c = CHR '' '' then ''+'' else quoter [] c)"

text \<open>\<open>sep.join(xs)\<close>.\<close>

fun join :: "string \<Rightarrow> string list \<Rightarrow> string" where
  "join sep [] = []"
| "join sep [x] = x"
| "join sep (x # y # ys) = x @ sep @ join sep (y # ys)"

definition urlencode :: "(string \<times> string) list \<Rightarrow> string" where
  "urlencode query = join ''&'' (map (\<lambda>(k, v). quote_plus k @ ''='' @ quote_plus v) query)"

subsection \<open>\<open>str\<close> of an integer\<close>

fun str_nat :: "nat \<Rightarrow> string" where
  "str_nat n =
     (if n < 10 then [''0123456789'' ! n]
      else str_nat (n div 10) @ [''0123456789'' ! (n mod 10)])"

declare str_nat.simps [simp del]

definition str_int :: "int \<Rightarrow> string" where
  "str_int i = (if i < 0 then CHR ''-'' # str_nat (nat (- i)) else str_nat (nat i))"

subsection \<open>\<open>key_uri\<close>\<close>

text \<open>
  \<open>params\<close> is a dictionary, and \<open>urlencode\<close> walks \<open>params.items()\<close>, in an order that
  the language does not fix. The order is the parameter \<open>items\<close>: a function that
  arranges the five items of the dictionary. The key and the issuer are byte strings,
  \<open>digits\<close> and \<open>step\<close> integers.
\<close>

definition key_uri_params :: "bytes \<Rightarrow> string \<Rightarrow> int \<Rightarrow> int \<Rightarrow> (string \<times> string) list" where
  "key_uri_params key issuer digits step =
     [(''secret'', b32encode key),
      (''issuer'', issuer),
      (''algorithm'', ''SHA1''),
      (''digits'', str_int digits),
      (''period'', str_int step)]"

definition key_uri ::
  "((string \<times> string) list \<Rightarrow> (string \<times> string) list) \<Rightarrow>
   bytes \<Rightarrow> string \<Rightarrow> string \<Rightarrow> int \<Rightarrow> int \<Rightarrow> string" where
  "key_uri items key issuer accountname digits step =
     ''otpauth://totp/'' @ quote issuer ''/'' @ '':'' @ quote accountname ''/'' @ ''?''
       @ urlencode (items (key_uri_params key issuer digits step))"

section \<open>Reading a key URI back\<close>

text \<open>
  The specification's round trip: the query is what follows the first \<open>?\<close>; it is split
  at \<open>&\<close>, each field at its first \<open>=\<close>, and names and values are unquoted
  (\<open>+\<close> is a space, \<open>%XX\<close> a byte). The value of \<open>secret\<close> is then decoded from padded
  Base32 as RFC 4648 defines it: groups of eight characters, \<open>=\<close> only at the end of
  the last group, in a run of 1, 3, 4 or 6.
\<close>

definition b32rev :: "char \<Rightarrow> int option" where
  "b32rev = map_of (zip b32tab (map int [0..<32]))"

definition from_quintets :: "int list \<Rightarrow> int" where
  "from_quintets vs = foldl (\<lambda>acc v. acc * 32 + v) 0 vs"

definition b32_values :: "string \<Rightarrow> int list option" where
  "b32_values cs = those (map b32rev cs)"

definition b32_last :: "string \<Rightarrow> bytes option" where
  "b32_last cs =
     (let body = takeWhile (\<lambda>c. c \<noteq> CHR ''='') cs;
          padchars = 8 - length body
      in if cs \<noteq> body @ replicate padchars (CHR ''='') then None
         else case b32_values body of
                None \<Rightarrow> None
              | Some vs \<Rightarrow>
                  let last = be_bytes 5 (from_quintets (vs @ replicate padchars 0))
                  in if padchars = 1 then Some (take 4 last)
                     else if padchars = 3 then Some (take 3 last)
                     else if padchars = 4 then Some (take 2 last)
                     else if padchars = 6 then Some (take 1 last)
                     else None)"

fun b32decode :: "string \<Rightarrow> bytes option" where
  "b32decode [] = Some []"
| "b32decode (c0 # c1 # c2 # c3 # c4 # c5 # c6 # c7 # rest) =
     (if c7 = CHR ''='' then (if rest = [] then b32_last [c0, c1, c2, c3, c4, c5, c6, c7] else None)
      else case b32_values [c0, c1, c2, c3, c4, c5, c6, c7] of
             None \<Rightarrow> None
           | Some vs \<Rightarrow>
               (case b32decode rest of
                  None \<Rightarrow> None
                | Some bs \<Rightarrow> Some (be_bytes 5 (from_quintets vs) @ bs)))"
| "b32decode _ = None"

definition hex_value :: "char \<Rightarrow> nat option" where
  "hex_value = map_of (zip ''0123456789ABCDEFabcdef'' [0, 1, 2, 3, 4, 5, 6, 7, 8, 9, 10, 11, 12, 13, 14, 15, 10, 11, 12, 13, 14, 15])"

fun unquote :: "string \<Rightarrow> string" where
  "unquote (c # a # b # rest) =
     (if c = CHR ''%'' then
        (case (hex_value a, hex_value b) of
           (Some h, Some l) \<Rightarrow> char_of (16 * h + l) # unquote rest
         | _ \<Rightarrow> c # unquote (a # b # rest))
      else c # unquote (a # b # rest))"
| "unquote cs = cs"

definition unquote_plus :: "string \<Rightarrow> string" where
  "unquote_plus s = unquote (map (\<lambda>c. if c = CHR ''+'' then CHR '' '' else c) s)"

fun split_on :: "char \<Rightarrow> string \<Rightarrow> string list" where
  "split_on sep [] = [[]]"
| "split_on sep (c # cs) =
     (if c = sep then [] # split_on sep cs
      else (case split_on sep cs of
              [] \<Rightarrow> [[c]]
            | w # ws \<Rightarrow> (c # w) # ws))"

definition parse_qsl :: "string \<Rightarrow> (string \<times> string) list" where
  "parse_qsl q =
     map (\<lambda>p. (unquote_plus (takeWhile (\<lambda>c. c \<noteq> CHR ''='') p),
                unquote_plus (drop 1 (dropWhile (\<lambda>c. c \<noteq> CHR ''='') p))))
       (split_on (CHR ''&'') q)"

definition uri_query :: "string \<Rightarrow> string" where
  "uri_query uri = drop 1 (dropWhile (\<lambda>c. c \<noteq> CHR ''?'') uri)"

definition uri_secret :: "string \<Rightarrow> string option" where
  "uri_secret uri = map_of (parse_qsl (uri_query uri)) ''secret''"

definition decode_secret :: "string \<Rightarrow> bytes option" where
  "decode_secret uri = (case uri_secret uri of None \<Rightarrow> None | Some s \<Rightarrow> b32decode s)"

section \<open>The specification's formulas\<close>

text \<open>The counter as the specification writes it: the floor of the real quotient.\<close>

definition floor_quotient :: "int \<Rightarrow> int \<Rightarrow> int \<Rightarrow> int" where
  "floor_quotient current epoch step =
     \<lfloor>real_of_int (current - epoch) / real_of_int step\<rfloor>"

text \<open>
  RFC 4226 dynamic truncation as the specification writes it: the offset is the low
  nibble of the last byte, the four bytes from the offset are an unsigned 32-bit
  big-endian integer, its most significant bit is masked off with \<open>0x7FFFFFFF\<close>, and
  the code is the rest modulo \<open>10 ^ d\<close>.
\<close>

definition dynamic_truncation :: "bytes \<Rightarrow> nat \<Rightarrow> int" where
  "dynamic_truncation digest d =
     (let offset = unat (last digest AND 0x0F);
          p :: u32 = word_rcat [digest ! offset, digest ! (offset + 1),
                                digest ! (offset + 2), digest ! (offset + 3)]
      in uint (p AND 0x7FFFFFFF) mod 10 ^ d)"

text \<open>The HMAC-SHA-1 digest of the worked example in RFC 4226, section 5.4.\<close>

definition rfc4226_digest :: bytes where
  "rfc4226_digest =
     [0x1f, 0x86, 0x98, 0x69, 0x0e, 0x02, 0xca, 0x16, 0x61, 0x85,
      0x50, 0xef, 0x7f, 0x19, 0xda, 0x8e, 0x94, 0x5b, 0x55, 0x5a]"

text \<open>A digest whose last byte has low nibble 15 and whose byte 15 is not zero.\<close>

definition offset_15_digest :: bytes where
  "offset_15_digest = [0, 0, 0, 0, 0, 0, 0, 0, 0, 0, 0, 0, 0, 0, 0, 1, 0, 0, 0, 0x0F]"

section \<open>HMAC-SHA-1 on short keys and messages\<close>

text \<open>
  With a key of at most 64 bytes and a message of at most 55 bytes, both hashes of the
  HMAC are two blocks long: the padded key xor \<open>ipad\<close> (or \<open>opad\<close>), and the message
  (or the inner digest) followed by the SHA-1 padding, \<open>pad_tail\<close>.
\<close>

definition pad_tail :: "bytes \<Rightarrow> bytes" where
  "pad_tail m = m @ [0x80] @ replicate (55 - length m) 0 @ be_bytes 8 (8 * (64 + int (length m)))"

definition ipad :: "bytes \<Rightarrow> bytes" where
  "ipad key = map (\<lambda>b. b XOR 0x36) (key @ replicate (64 - length key) 0)"

definition opad :: "bytes \<Rightarrow> bytes" where
  "opad key = map (\<lambda>b. b XOR 0x5C) (key @ replicate (64 - length key) 0)"

text \<open>The key of the test vectors of RFC 4226, Appendix D.\<close>

definition rfc4226_key :: bytes where
  "rfc4226_key = ascii ''12345678901234567890''"

section \<open>Packing lemmas\<close>

lemma be_int_snoc: "be_int (bs @ [b]) = be_int bs * 256 + uint b"
  by (simp add: be_int_def)

lemma length_be_bytes: "length (be_bytes k n) = k"
  by (induction k arbitrary: n) simp_all

lemma be_int_be_bytes: "be_int (be_bytes k n) = n mod 256 ^ k"
proof (induction k arbitrary: n)
  case 0
  show ?case by (simp add: be_int_def)
next
  case (Suc k)
  have "uint (word_of_int n :: byte) = n mod 256"
    by (simp add: uint_word_of_int take_bit_eq_mod)
  then have "be_int (be_bytes (Suc k) n) = (n div 256) mod 256 ^ k * 256 + n mod 256"
    by (simp add: be_int_snoc Suc.IH)
  also have "\<dots> = n mod 256 ^ Suc k"
    using zmod_zmult2_eq [of "256 ^ k" n 256] by (simp add: mult.commute)
  finally show ?case .
qed

lemma be_bytes_8:
  "be_bytes 8 n =
     [word_of_int (n div 2 ^ 56), word_of_int (n div 2 ^ 48), word_of_int (n div 2 ^ 40),
      word_of_int (n div 2 ^ 32), word_of_int (n div 2 ^ 24), word_of_int (n div 2 ^ 16),
      word_of_int (n div 2 ^ 8), word_of_int n]"
  by (simp add: numeral_eq_Suc zdiv_zmult2_eq [symmetric])

lemma pack_Q_negative: "n < 0 \<Longrightarrow> pack_Q n = Inl StructError"
  by (simp add: pack_Q_def)

lemma be_int_4_eq:
  "be_int [a, b, c, d] = uint a * 2 ^ 24 + uint b * 2 ^ 16 + uint c * 2 ^ 8 + uint d"
  by (simp add: be_int_def)

lemma be_int_4_bounds: "0 \<le> be_int [a, b, c, d]" "be_int [a, b, c, d] < 4294967296"
  using uint_lt2p [of a] uint_lt2p [of b] uint_lt2p [of c] uint_lt2p [of d]
  by (simp_all add: be_int_4_eq)

lemma uint_word_rcat_4: "uint (word_rcat [a, b, c, d :: byte] :: u32) = be_int [a, b, c, d]"
proof -
  have "(word_rcat [a, b, c, d] :: u32) = word_of_int (be_int [a, b, c, d])"
    by (simp add: word_rcat_def be_int_4_eq)
  then have "uint (word_rcat [a, b, c, d] :: u32) = be_int [a, b, c, d] mod 2 ^ 32"
    by (simp add: uint_word_of_int)
  then show ?thesis
    using be_int_4_bounds [of a b c d] by simp
qed

lemma clear_bit_31:
  fixes x :: int
  assumes "0 \<le> x" and "x < 4294967296"
  shows "x AND - 2147483649 = take_bit 31 x"
proof -
  have c: "(- 2147483649 :: int) = NOT (2 ^ 31)"
    by (simp add: not_int_def)
  show ?thesis
    unfolding c
  proof (rule bit_eqI)
    fix n
    from assms have "take_bit 32 x = x"
      by (simp add: take_bit_int_eq_self)
    then have high: "bit x n \<longleftrightarrow> n < 32 \<and> bit x n"
      by (metis bit_take_bit_iff)
    show "bit (x AND NOT (2 ^ 31)) n \<longleftrightarrow> bit (take_bit 31 x) n"
      unfolding bit_and_iff bit_not_iff bit_take_bit_iff bit_exp_iff
      using high by auto
  qed
qed

lemma uint_and_7FFFFFFF: "uint ((p :: u32) AND 0x7FFFFFFF) = take_bit 31 (uint p)"
proof -
  have "(0x7FFFFFFF :: u32) = mask 31"
    by (simp add: mask_eq_exp_minus_1)
  then show ?thesis
    by (simp only: take_bit_eq_mask [symmetric] unsigned_take_bit_eq)
qed

lemma take_4_drop:
  assumes "offset + 4 \<le> length xs"
  shows "take 4 (drop offset xs) = [xs ! offset, xs ! (offset + 1), xs ! (offset + 2), xs ! (offset + 3)]"
proof (rule nth_equalityI)
  show "length (take 4 (drop offset xs)) = length [xs ! offset, xs ! (offset + 1), xs ! (offset + 2), xs ! (offset + 3)]"
    using assms by simp
next
  fix i
  assume "i < length (take 4 (drop offset xs))"
  then have "i < 4" by simp
  then consider "i = 0" | "i = 1" | "i = 2" | "i = 3" by linarith
  then show "take 4 (drop offset xs) ! i = [xs ! offset, xs ! (offset + 1), xs ! (offset + 2), xs ! (offset + 3)] ! i"
    using assms by cases simp_all
qed

lemma offset_le_15: "nat (uint (b :: byte) AND 15) \<le> 15"
proof -
  have "uint b AND 15 \<le> 15"
    by (rule AND_upper2) simp
  then show ?thesis by linarith
qed

lemma offset_unat: "nat (uint (b :: byte) AND 15) = unat (b AND 0x0F)"
  by (simp add: unat_eq_nat_uint uint_and)

lemma truncate_in_bounds:
  assumes "20 \<le> length digest"
  shows "truncate digest d =
         Inr ((be_int [digest ! unat (last digest AND 0x0F),
                       digest ! (unat (last digest AND 0x0F) + 1),
                       digest ! (unat (last digest AND 0x0F) + 2),
                       digest ! (unat (last digest AND 0x0F) + 3)]
               AND NOT (push_bit 31 1)) mod 10 ^ d)"
proof -
  let ?o = "unat (last digest AND 0x0F)"
  have ne: "digest \<noteq> []" using assms by auto
  have le: "?o + 4 \<le> length digest"
    using offset_le_15 [of "last digest"] assms by (simp add: offset_unat)
  show ?thesis
    using ne le by (simp add: truncate_def Let_def offset_unat take_4_drop [OF le] unpack_I_def)
qed

section \<open>Time steps\<close>

lemma floor_quotient_div: "floor_quotient current epoch step = (current - epoch) div step"
  by (simp only: floor_quotient_def floor_divide_of_int_eq)

text \<open>
  C3. For a positive step, \<open>time_steps\<close> returns the floor of
  \<open>(current - epoch) / step\<close>, whether the time is given or read from the clock:
  59, 60 and 29 seconds with a step of 30 give 1, 2 and 0, and one second before the
  epoch gives \<open>-1\<close>, where division truncating towards zero would give 0.
\<close>

theorem time_steps_floor_division:
  "(0 < step \<longrightarrow>
      time_steps clock (Some current) epoch step = Inr (floor_quotient current epoch step)
    \<and> time_steps clock None epoch step = Inr (floor_quotient clock epoch step))
   \<and> time_steps clock (Some 59) 0 30 = Inr 1
   \<and> time_steps clock (Some 60) 0 30 = Inr 2
   \<and> time_steps clock (Some 29) 0 30 = Inr 0
   \<and> time_steps clock (Some (- 1)) 0 30 = Inr (- 1)"
  by (simp add: time_steps_def floor_quotient_div)

theorem time_steps_floor_division_witness:
  "(0::int) < 30 \<and> time_steps 0 (Some (- 45)) 0 30 = Inr (floor_quotient (- 45) 0 30)
   \<and> floor_quotient (- 45) 0 30 = - 2"
  using time_steps_floor_division [of 30 0 "- 45" 0]
  by (simp add: floor_quotient_div)

text \<open>
  C4, as the specification states it, fails for a negative step: \<open>time_steps(59, 0, -30)\<close>
  raises nothing and returns \<open>-2\<close>.
\<close>

theorem time_steps_negative_step_counterexample:
  "time_steps 0 (Some 59) 0 (- 30) = Inr (- 2)"
  by (simp add: time_steps_def)

text \<open>
  C4, amended. A step of zero makes \<open>time_steps\<close>, and hence \<open>totp\<close>, raise
  \<open>ZeroDivisionError\<close>, the error of the division itself. A negative step raises
  nothing in \<open>time_steps\<close>, which returns the floor of \<open>(current - epoch) / step\<close>.
\<close>

theorem step_zero_raises_negative_step_divides:
  "(step = 0 \<longrightarrow>
      time_steps clock current epoch step = Inl ZeroDivisionError
    \<and> totp clock key current epoch step = Inl ZeroDivisionError)
   \<and> (step < 0 \<longrightarrow>
      time_steps clock (Some c) epoch step = Inr ((c - epoch) div step)
    \<and> time_steps clock None epoch step = Inr ((clock - epoch) div step))"
  by (simp add: time_steps_def totp_def)

theorem step_zero_raises_negative_step_divides_witness:
  "time_steps 0 (Some 59) 0 0 = Inl ZeroDivisionError
   \<and> totp 0 (ascii ''12345678901234567890'') (Some 59) 0 0 = Inl ZeroDivisionError
   \<and> time_steps 0 (Some 59) 0 (- 30) = Inr (- 2)"
  using step_zero_raises_negative_step_divides
          [of 0 0 "Some 59" 0 "ascii ''12345678901234567890''" 59]
        step_zero_raises_negative_step_divides
          [of "- 30" 0 "Some 59" 0 "ascii ''12345678901234567890''" 59]
  by simp

text \<open>
  C10. With a positive step and a time at least one step before the epoch,
  \<open>time_steps\<close> returns a negative counter, \<open>hmac_digest\<close> cannot pack it as an
  unsigned 64-bit integer, and \<open>totp\<close> raises \<open>struct.error\<close>.
\<close>

theorem totp_before_epoch_raises:
  assumes "0 < step" and "step \<le> epoch - current"
  shows "time_steps clock (Some current) epoch step = Inr ((current - epoch) div step)
         \<and> (current - epoch) div step < 0
         \<and> hmac_digest key (IntMsg ((current - epoch) div step)) sha1 = Inl StructError
         \<and> totp clock key (Some current) epoch step = Inl StructError"
proof -
  from assms have neg: "(current - epoch) div step < 0"
    by (simp add: div_neg_pos_less0)
  have ts: "time_steps clock (Some current) epoch step = Inr ((current - epoch) div step)"
    using assms by (simp add: time_steps_def)
  have hd: "hmac_digest key (IntMsg ((current - epoch) div step)) sha1 = Inl StructError"
    using neg by (simp add: hmac_digest_def pack_Q_negative)
  have "totp clock key (Some current) epoch step = Inl StructError"
    by (simp add: totp_def ts hotp_def hd)
  with neg ts hd show ?thesis by simp
qed

theorem totp_before_epoch_raises_witness:
  "(0::int) < 30 \<and> (30::int) \<le> 30 - 0
   \<and> totp 0 (ascii ''12345678901234567890'') (Some 0) 30 30 = Inl StructError"
  using totp_before_epoch_raises [of 30 30 0 0 "ascii ''12345678901234567890''"]
  by simp

section \<open>Dynamic truncation\<close>

text \<open>
  C2. On a 20-byte digest and a positive digit count, \<open>truncate\<close> returns the RFC 4226
  dynamic truncation of the digest, a code in \<open>[0, 10 ^ d)\<close>.
\<close>

theorem truncate_dynamic_truncation:
  assumes "length digest = 20" and "0 < d"
  shows "truncate digest d = Inr (dynamic_truncation digest d)
         \<and> 0 \<le> dynamic_truncation digest d \<and> dynamic_truncation digest d < 10 ^ d"
proof -
  have "truncate digest d = Inr (dynamic_truncation digest d)"
    using assms(1)
    by (simp add: truncate_in_bounds dynamic_truncation_def Let_def uint_and_7FFFFFFF
        uint_word_rcat_4 clear_bit_31 be_int_4_bounds)
  moreover have "0 \<le> dynamic_truncation digest d" "dynamic_truncation digest d < 10 ^ d"
    by (simp_all add: dynamic_truncation_def Let_def)
  ultimately show ?thesis by simp
qed

theorem truncate_dynamic_truncation_witness:
  "length rfc4226_digest = 20 \<and> (0::nat) < 6
   \<and> truncate rfc4226_digest 6 = Inr (dynamic_truncation rfc4226_digest 6)
   \<and> truncate rfc4226_digest 6 = Inr 872921"
  using truncate_dynamic_truncation [of rfc4226_digest 6]
  by (simp add: rfc4226_digest_def truncate_def unpack_I_def be_int_def)

text \<open>
  C5, as the specification states it, fails for \<open>digits = 0\<close>: \<open>10 ** 0\<close> is 1, and
  \<open>truncate\<close> returns 0 without raising, here on the digest whose six-digit code is
  872921.
\<close>

theorem truncate_zero_digits_counterexample:
  "truncate rfc4226_digest 0 = Inr 0 \<and> truncate rfc4226_digest 6 = Inr 872921"
  by (simp add: rfc4226_digest_def truncate_def unpack_I_def be_int_def)

text \<open>
  C5, amended. With \<open>digits = 0\<close>, \<open>truncate\<close> raises nothing and returns 0 for every
  digest of at least 20 bytes.
\<close>

theorem truncate_zero_digits:
  "20 \<le> length digest \<Longrightarrow> truncate digest 0 = Inr 0"
  by (simp add: truncate_in_bounds)

theorem truncate_zero_digits_witness:
  "20 \<le> length offset_15_digest \<and> truncate offset_15_digest 0 = Inr 0"
  using truncate_zero_digits [of offset_15_digest]
  by (simp add: offset_15_digest_def)

section \<open>Counter encoding\<close>

text \<open>
  C6. An integer message in \<open>0 .. 2^64 - 1\<close> is packed into exactly eight bytes, most
  significant first, which read back as the same unsigned integer, and the HMAC is
  computed over these bytes; any other integer makes \<open>hmac_digest\<close> raise
  \<open>struct.error\<close>.
\<close>

theorem hmac_digest_packs_counter:
  "(0 \<le> n \<and> n < 2 ^ 64 \<longrightarrow>
      hmac_digest key (IntMsg n) h = Inr (hmac_new_digest key (be_bytes 8 n) h)
    \<and> length (be_bytes 8 n) = 8
    \<and> be_int (be_bytes 8 n) = n
    \<and> be_bytes 8 n =
        [word_of_int (n div 2 ^ 56), word_of_int (n div 2 ^ 48), word_of_int (n div 2 ^ 40),
         word_of_int (n div 2 ^ 32), word_of_int (n div 2 ^ 24), word_of_int (n div 2 ^ 16),
         word_of_int (n div 2 ^ 8), word_of_int n])
   \<and> (n < 0 \<or> 2 ^ 64 \<le> n \<longrightarrow> hmac_digest key (IntMsg n) h = Inl StructError)"
proof -
  have "be_int (be_bytes 8 n) = n" if "0 \<le> n" "n < 2 ^ 64"
    using that by (simp add: be_int_be_bytes)
  moreover have "hmac_digest key (IntMsg n) h = Inr (hmac_new_digest key (be_bytes 8 n) h)"
    if "0 \<le> n" "n < 2 ^ 64"
    using that by (simp add: hmac_digest_def pack_Q_def)
  moreover have "hmac_digest key (IntMsg n) h = Inl StructError" if "n < 0 \<or> 2 ^ 64 \<le> n"
    using that by (auto simp add: hmac_digest_def pack_Q_def)
  ultimately show ?thesis
    using be_bytes_8 [of n] by (simp add: length_be_bytes)
qed

theorem hmac_digest_packs_counter_witness:
  "hmac_digest [1, 2] (IntMsg 258) sha1 = Inr (hmac_new_digest [1, 2] [0, 0, 0, 0, 0, 0, 1, 2] sha1)
   \<and> hmac_digest [1, 2] (IntMsg (- 1)) sha1 = Inl StructError
   \<and> hmac_digest [1, 2] (IntMsg (2 ^ 64)) sha1 = Inl StructError"
proof -
  have b: "(258 :: byte) = 2" by simp
  show ?thesis
    using hmac_digest_packs_counter [of 258 "[1, 2]" sha1]
      hmac_digest_packs_counter [of "- 1" "[1, 2]" sha1]
      hmac_digest_packs_counter [of "2 ^ 64" "[1, 2]" sha1]
    by (simp add: b)
qed

section \<open>HOTP\<close>

lemma length_state_bytes: "length (state_bytes s) = 20"
  by (simp add: state_bytes_def word_bytes_def split: prod.splits)

lemma length_sha1_digest: "length (sha1_digest m) = 20"
  by (simp add: sha1_digest_def length_state_bytes)

lemma length_hmac_sha1: "length (hmac_new_digest key m sha1) = 20"
  by (simp add: hmac_new_digest_def sha1_def Let_def length_sha1_digest)

text \<open>
  C7, as the specification states it, fails in its second half: with offset 15 the
  slice \<open>digest[15:19]\<close> is the bytes at indices 15 to 18, not 16 to 19. On this digest
  the code is 777216, from bytes 15 to 18, and bytes 16 to 19 would give 15.
\<close>

theorem truncate_offset_15_counterexample:
  "length offset_15_digest = 20 \<and> last offset_15_digest AND 15 = 15
   \<and> truncate offset_15_digest 6 = Inr 777216
   \<and> (be_int [offset_15_digest ! 16, offset_15_digest ! 17,
               offset_15_digest ! 18, offset_15_digest ! 19] AND 0x7FFFFFFF) mod 10 ^ 6 = 15"
  by (simp add: offset_15_digest_def truncate_def unpack_I_def be_int_def)

text \<open>
  C7, amended. For every key and every counter in \<open>0 .. 2^64 - 1\<close>, \<open>hotp\<close> with SHA-1
  returns a code and raises nothing; on a 20-byte digest whose last byte has low
  nibble 15, \<open>truncate\<close> stays in bounds and uses exactly the bytes at indices 15 to 18.
\<close>

theorem hotp_total_on_counters:
  "(0 \<le> n \<and> n < 2 ^ 64 \<longrightarrow> (\<exists>code. hotp key (IntMsg n) sha1 = Inr code))
   \<and> (length digest = 20 \<and> last digest AND 15 = 15 \<longrightarrow>
        truncate digest d =
          Inr ((be_int [digest ! 15, digest ! 16, digest ! 17, digest ! 18]
                AND 0x7FFFFFFF) mod 10 ^ d))"
proof -
  have "\<exists>code. hotp key (IntMsg n) sha1 = Inr code" if "0 \<le> n" "n < 2 ^ 64"
    using that
    by (simp add: hotp_def hmac_digest_def pack_Q_def truncate_in_bounds length_hmac_sha1)
  moreover have "truncate digest d =
          Inr ((be_int [digest ! 15, digest ! 16, digest ! 17, digest ! 18]
                AND 0x7FFFFFFF) mod 10 ^ d)"
    if "length digest = 20" "last digest AND 15 = 15"
    using that
    by (simp add: truncate_in_bounds clear_bit_31 be_int_4_bounds take_bit_eq_mask mask_eq_exp_minus_1)
  ultimately show ?thesis by auto
qed

theorem hotp_total_on_counters_witness:
  "(\<exists>code. hotp (ascii ''12345678901234567890'') (IntMsg 0) sha1 = Inr code)
   \<and> length offset_15_digest = 20 \<and> last offset_15_digest AND 15 = 15
   \<and> truncate offset_15_digest 6 = Inr 777216"
  using hotp_total_on_counters [of 0 "ascii ''12345678901234567890''" offset_15_digest 6]
  by (simp add: offset_15_digest_def be_int_def)

section \<open>The test vectors of RFC 4226\<close>

subsection \<open>Two-block digests\<close>

lemma sha1_blocks_two:
  assumes "length b1 = 64" and "length b2 = 64"
  shows "sha1_blocks h (b1 @ b2) = sha1_block (sha1_block h b1) b2"
proof -
  have "sha1_blocks h (b1 @ b2) = sha1_blocks (sha1_block h b1) b2"
    using assms by (subst sha1_blocks.simps) simp
  also have "\<dots> = sha1_blocks (sha1_block (sha1_block h b1) b2) []"
    using assms by (subst sha1_blocks.simps) simp
  also have "\<dots> = sha1_block (sha1_block h b1) b2"
    by (subst sha1_blocks.simps) simp
  finally show ?thesis .
qed

lemma sha1_pad_second_block:
  assumes "length b1 = 64" and "length m \<le> 55"
  shows "sha1_pad (b1 @ m) = b1 @ pad_tail m"
proof -
  have "length (b1 @ m) + 9 = 64 + (length m + 9)"
    using assms by simp
  then have "(length (b1 @ m) + 9) mod 64 = (length m + 9) mod 64"
    by (simp only: mod_add_self1)
  moreover have "(64 - (length m + 9) mod 64) mod 64 = 55 - length m"
  proof (cases "length m = 55")
    case True
    then show ?thesis by simp
  next
    case False
    with assms have "length m + 9 < 64" by simp
    then show ?thesis by simp
  qed
  ultimately have "(64 - (length (b1 @ m) + 9) mod 64) mod 64 = 55 - length m"
    by (simp only:)
  moreover have "int (length (b1 @ m)) = 64 + int (length m)"
    using assms by simp
  ultimately show ?thesis
    unfolding sha1_pad_def pad_tail_def by (simp only: append_assoc)
qed

lemma length_pad_tail: "length m \<le> 55 \<Longrightarrow> length (pad_tail m) = 64"
  by (simp add: pad_tail_def length_be_bytes)

lemma sha1_digest_second_block:
  assumes "length b1 = 64" and "length m \<le> 55"
  shows "sha1_digest (b1 @ m) = state_bytes (sha1_block (sha1_block sha1_init b1) (pad_tail m))"
  using assms
  by (simp add: sha1_digest_def sha1_pad_second_block sha1_blocks_two length_pad_tail)

lemma hmac_sha1_short:
  assumes "length key \<le> 64" and "length m \<le> 55"
  shows "hmac_new_digest key m sha1 =
     state_bytes (sha1_block (sha1_block sha1_init (opad key))
       (pad_tail (state_bytes (sha1_block (sha1_block sha1_init (ipad key)) (pad_tail m)))))"
proof -
  have li: "length (ipad key) = 64" and lo: "length (opad key) = 64"
    using assms(1) by (simp_all add: ipad_def opad_def)
  have "hmac_new_digest key m sha1 = sha1_digest (opad key @ sha1_digest (ipad key @ m))"
    using assms(1) by (simp add: hmac_new_digest_def sha1_def Let_def ipad_def opad_def)
  also have "sha1_digest (ipad key @ m) =
      state_bytes (sha1_block (sha1_block sha1_init (ipad key)) (pad_tail m))"
    using li assms(2) by (rule sha1_digest_second_block)
  also have "sha1_digest (opad key @ state_bytes (sha1_block (sha1_block sha1_init (ipad key)) (pad_tail m))) =
      state_bytes (sha1_block (sha1_block sha1_init (opad key))
       (pad_tail (state_bytes (sha1_block (sha1_block sha1_init (ipad key)) (pad_tail m)))))"
    using lo by (rule sha1_digest_second_block) (simp add: length_state_bytes)
  finally show ?thesis .
qed

subsection \<open>Evaluation rules\<close>

text \<open>
  Rotation of a 32-bit numeral, and the unfolding of \<open>schedule\<close> and \<open>replicate\<close> at a
  numeral, in a form the simplifier evaluates.
\<close>

lemma word_rotl_u32:
  "word_rotl n (w :: u32) =
     word_of_int (concat_bit (n mod 32) (drop_bit (32 - n mod 32) (uint w))
                    (take_bit (32 - n mod 32) (uint w)))"
  by transfer simp

lemma word_rotl_numeral:
  "word_rotl n (numeral k :: u32) =
     word_of_int (take_bit (n mod 32) (drop_bit (32 - n mod 32) (take_bit 32 (numeral k)))
                  + push_bit (n mod 32) (take_bit (32 - n mod 32) (take_bit 32 (numeral k))))"
  unfolding word_rotl_u32 concat_bit_eq by simp

lemma word_rotl_one:
  "word_rotl n (1 :: u32) =
     word_of_int (take_bit (n mod 32) (drop_bit (32 - n mod 32) 1)
                  + push_bit (n mod 32) (take_bit (32 - n mod 32) 1))"
  unfolding word_rotl_u32 concat_bit_eq by simp

lemmas rotl_eval = word_rotl_numeral word_rotl_one

lemma schedule_numeral:
  "schedule (numeral k)
     (w0 # w1 # w2 # w3 # w4 # w5 # w6 # w7 # w8 # w9 # w10 # w11 # w12 # w13 # w14 # w15 # ws) =
     w0 # schedule (pred_numeral k)
            [w1, w2, w3, w4, w5, w6, w7, w8, w9, w10, w11, w12, w13, w14, w15,
             word_rotl 1 (w13 XOR w8 XOR w2 XOR w0)]"
  by (simp add: numeral_eq_Suc)

lemma replicate_numeral: "replicate (numeral k) x = x # replicate (pred_numeral k) x"
  by (simp add: numeral_eq_Suc)

lemmas sha1_block_eval = sha1_block_def schedule_numeral rotl_eval sha1_f_def sha1_K_def

lemmas pad_tail_eval = pad_tail_def be_bytes_8 replicate_numeral state_bytes_def word_bytes_def

subsection \<open>The compression function on the blocks of the vectors\<close>

lemma ipad_state:
  "sha1_block sha1_init (ipad rfc4226_key) =
     (3418885260, 4120502956, 3183003698, 3667247555, 4167577637)"
  by (simp add: ipad_def rfc4226_key_def ascii_def replicate_numeral sha1_init_def sha1_block_eval)

lemma opad_state:
  "sha1_block sha1_init (opad rfc4226_key) =
     (2562571725, 1491106814, 2908544490, 985678603, 4262488101)"
  by (simp add: opad_def rfc4226_key_def ascii_def replicate_numeral sha1_init_def sha1_block_eval)

lemma inner_0:
  "sha1_block (3418885260, 4120502956, 3183003698, 3667247555, 4167577637) (pad_tail (be_bytes 8 0)) =
     (143776190, 163256007, 3362926067, 1759011664, 1719552414)"
  by (simp add: pad_tail_eval sha1_block_eval)

lemma inner_1:
  "sha1_block (3418885260, 4120502956, 3183003698, 3667247555, 4167577637) (pad_tail (be_bytes 8 1)) =
     (2923006674, 3845772892, 1570953884, 2321626177, 2537110156)"
  by (simp add: pad_tail_eval sha1_block_eval)

lemma inner_9:
  "sha1_block (3418885260, 4120502956, 3183003698, 3667247555, 4167577637) (pad_tail (be_bytes 8 9)) =
     (1592545693, 3129632493, 1262041156, 781386127, 3817386278)"
  by (simp add: pad_tail_eval sha1_block_eval)

lemma outer_0:
  "state_bytes (sha1_block (2562571725, 1491106814, 2908544490, 985678603, 4262488101)
     (pad_tail (state_bytes (143776190, 163256007, 3362926067, 1759011664, 1719552414)))) =
   [204, 147, 207, 24, 80, 141, 148, 147, 76, 100, 182, 93, 139, 167, 102,
    127, 183, 205, 228, 176]"
  by (simp add: pad_tail_eval sha1_block_eval)

lemma outer_1:
  "state_bytes (sha1_block (2562571725, 1491106814, 2908544490, 985678603, 4262488101)
     (pad_tail (state_bytes (2923006674, 3845772892, 1570953884, 2321626177, 2537110156)))) =
   [117, 164, 138, 25, 212, 203, 225, 0, 100, 78, 138, 193, 57, 126, 234,
    116, 122, 45, 51, 171]"
  by (simp add: pad_tail_eval sha1_block_eval)

lemma outer_9:
  "state_bytes (sha1_block (2562571725, 1491106814, 2908544490, 985678603, 4262488101)
     (pad_tail (state_bytes (1592545693, 3129632493, 1262041156, 781386127, 3817386278)))) =
   [22, 55, 64, 152, 9, 166, 121, 220, 105, 130, 7, 49, 12, 140, 127, 192,
    114, 144, 217, 229]"
  by (simp add: pad_tail_eval sha1_block_eval)

lemma length_rfc4226_key: "length rfc4226_key = 20"
  by (simp add: rfc4226_key_def ascii_def)

lemma hmac_rfc4226_key:
  "hmac_new_digest rfc4226_key (be_bytes 8 n) sha1 =
     state_bytes (sha1_block (2562571725, 1491106814, 2908544490, 985678603, 4262488101)
       (pad_tail (state_bytes
          (sha1_block (3418885260, 4120502956, 3183003698, 3667247555, 4167577637)
             (pad_tail (be_bytes 8 n))))))"
  by (simp add: hmac_sha1_short length_rfc4226_key length_be_bytes ipad_state opad_state)

lemmas truncate_eval = hotp_def hmac_digest_def pack_Q_def truncate_def unpack_I_def be_int_def
  DEFAULT_DIGITS_def

lemma hotp_0: "hotp rfc4226_key (IntMsg 0) sha1 = Inr 755224"
  by (simp add: truncate_eval hmac_rfc4226_key inner_0 outer_0)

lemma hotp_1: "hotp rfc4226_key (IntMsg 1) sha1 = Inr 287082"
  by (simp add: truncate_eval hmac_rfc4226_key inner_1 outer_1)

lemma hotp_9: "hotp rfc4226_key (IntMsg 9) sha1 = Inr 520489"
  by (simp add: truncate_eval hmac_rfc4226_key inner_9 outer_9)

text \<open>
  C1. With the key \<open>"12345678901234567890"\<close> and SHA-1, \<open>hotp\<close> returns 755224 for
  counter 0, 287082 for counter 1 and 520489 for counter 9.
\<close>

theorem hotp_rfc4226_vectors:
  "hotp (ascii ''12345678901234567890'') (IntMsg 0) sha1 = Inr 755224
   \<and> hotp (ascii ''12345678901234567890'') (IntMsg 1) sha1 = Inr 287082
   \<and> hotp (ascii ''12345678901234567890'') (IntMsg 9) sha1 = Inr 520489"
  using hotp_0 hotp_1 hotp_9 by (simp add: rfc4226_key_def)

text \<open>
  C9. \<open>hotp\<close> always truncates to six digits: whenever \<open>hotp\<close> or \<open>totp\<close> returns
  a code, it lies in \<open>[0, 10 ^ 6)\<close>.
\<close>

theorem hotp_six_digits:
  "hotp key counter h =
     (case hmac_digest key counter h of
        Inl e \<Rightarrow> Inl e
      | Inr digest \<Rightarrow> truncate digest 6)
   \<and> (hotp key counter h = Inr code \<longrightarrow> 0 \<le> code \<and> code < 10 ^ 6)
   \<and> (totp clock key current epoch step = Inr code \<longrightarrow> 0 \<le> code \<and> code < 10 ^ 6)"
proof -
  have tr: "0 \<le> c \<and> c < 10 ^ 6" if "truncate dg 6 = Inr c" for dg c
    using that by (auto simp add: truncate_def Let_def split: if_splits sum.splits)
  have ho: "0 \<le> c \<and> c < 10 ^ 6" if "hotp k m f = Inr c" for k m f c
    using that tr by (auto simp add: hotp_def DEFAULT_DIGITS_def split: sum.splits)
  have to: "0 \<le> code \<and> code < 10 ^ 6" if "totp clock key current epoch step = Inr code"
    using that ho by (auto simp add: totp_def split: sum.splits)
  have eq: "hotp key counter h =
     (case hmac_digest key counter h of
        Inl e \<Rightarrow> Inl e
      | Inr digest \<Rightarrow> truncate digest 6)"
    unfolding hotp_def DEFAULT_DIGITS_def by (rule refl)
  from eq to ho [of key counter h code] show ?thesis by blast
qed

theorem hotp_six_digits_witness:
  "hotp rfc4226_key (IntMsg 1) sha1 = Inr 287082
   \<and> totp 0 rfc4226_key (Some 59) 0 30 = Inr 287082
   \<and> (0::int) \<le> 287082 \<and> (287082::int) < 10 ^ 6"
proof -
  have t: "totp 0 rfc4226_key (Some 59) 0 30 = Inr 287082"
    by (simp add: totp_def time_steps_def hotp_1)
  show ?thesis
    using hotp_six_digits [of rfc4226_key "IntMsg 1" sha1 287082 0 "Some 59" 0 30] hotp_1 t
    by simp
qed

section \<open>The key URI\<close>

subsection \<open>Base32\<close>

lemma be_int_bounds: "0 \<le> be_int bs \<and> be_int bs < 256 ^ length bs"
proof (induction bs rule: rev_induct)
  case Nil
  show ?case by (simp add: be_int_def)
next
  case (snoc b bs)
  have "0 \<le> uint b" "uint b < 256"
    using uint_lt2p [of b] by simp_all
  with snoc show ?case
    by (simp add: be_int_snoc) 
qed

lemma be_bytes_be_int: "be_bytes (length bs) (be_int bs) = bs"
proof (induction bs rule: rev_induct)
  case Nil
  show ?case by simp
next
  case (snoc b bs)
  have u: "0 \<le> uint b" "uint b < 256"
    using uint_lt2p [of b] by simp_all
  then have d: "(be_int bs * 256 + uint b) div 256 = be_int bs"
    by simp
  have w: "(word_of_int (be_int bs * 256 + uint b) :: byte) = b"
  proof (rule word_uint_eqI)
    have "uint (word_of_int (be_int bs * 256 + uint b) :: byte) =
        (be_int bs * 256 + uint b) mod 2 ^ LENGTH(8)"
      by (rule uint_word_of_int)
    also have "\<dots> = uint b"
      using u by simp
    finally show "uint (word_of_int (be_int bs * 256 + uint b) :: byte) = uint b" .
  qed
  have "be_bytes (length (bs @ [b])) (be_int (bs @ [b])) =
      be_bytes (Suc (length bs)) (be_int bs * 256 + uint b)"
    by (simp add: be_int_snoc)
  also have "\<dots> = be_bytes (length bs) ((be_int bs * 256 + uint b) div 256)
      @ [word_of_int (be_int bs * 256 + uint b)]"
    by (rule be_bytes.simps(2))
  also have "\<dots> = bs @ [b]"
    by (simp only: d w snoc.IH)
  finally show ?case .
qed

lemma from_quintets_snoc: "from_quintets (vs @ [v]) = from_quintets vs * 32 + v"
  by (simp add: from_quintets_def)

lemma from_quintets_quintets: "from_quintets (quintets k n) = n mod 32 ^ k"
proof (induction k arbitrary: n)
  case 0
  show ?case by (simp add: from_quintets_def)
next
  case (Suc k)
  have "from_quintets (quintets (Suc k) n) = (n div 32) mod 32 ^ k * 32 + n mod 32"
    by (simp add: from_quintets_snoc Suc.IH)
  also have "\<dots> = n mod 32 ^ Suc k"
    using zmod_zmult2_eq [of "32 ^ k" n 32] by (simp add: mult.commute)
  finally show ?case .
qed

lemma length_quintets: "length (quintets k n) = k"
  by (induction k arbitrary: n) simp_all

lemma quintets_range: "v \<in> set (quintets k n) \<Longrightarrow> 0 \<le> v \<and> v < 32"
  by (induction k arbitrary: n) auto

lemma quintets_shift: "quintets (k + p) (m * 32 ^ p) = quintets k m @ replicate p 0"
proof (induction p)
  case 0
  show ?case by simp
next
  case (Suc p)
  have "quintets (Suc (k + p)) (m * 32 ^ Suc p) = quintets (k + p) (m * 32 ^ p) @ [0]"
    by simp
  then show ?case
    by (simp add: Suc.IH replicate_append_same)
qed

lemma upt_32: "[0..<32] = [0, 1, 2, 3, 4, 5, 6, 7, 8, 9, 10, 11, 12, 13, 14, 15, 16, 17, 18, 19, 20, 21, 22, 23, 24, 25, 26, 27, 28, 29, 30, 31]"
  by code_simp

lemma b32rev_tab_all:
  "\<forall>n\<in>set [0..<32]. b32rev (b32tab ! n) = Some (int n) \<and> b32tab ! n \<noteq> CHR ''=''"
  unfolding b32rev_def b32tab_def upt_32 by simp

lemma b32rev_tab:
  assumes "0 \<le> v" and "v < 32"
  shows "b32rev (b32tab ! nat v) = Some v" and "b32tab ! nat v \<noteq> CHR ''=''"
proof -
  from assms have "nat v \<in> set [0..<32]"
    by simp
  then have "b32rev (b32tab ! nat v) = Some (int (nat v)) \<and> b32tab ! nat v \<noteq> CHR ''=''"
    using b32rev_tab_all by blast
  with assms show "b32rev (b32tab ! nat v) = Some v" and "b32tab ! nat v \<noteq> CHR ''=''"
    by simp_all
qed

lemma those_b32rev:
  "\<forall>v\<in>set vs. 0 \<le> v \<and> v < 32 \<Longrightarrow>
   those (map (\<lambda>v. b32rev (b32tab ! nat v)) vs) = Some vs"
  by (induction vs) (simp_all add: b32rev_tab)

lemma b32_values_tab:
  "\<forall>v\<in>set vs. 0 \<le> v \<and> v < 32 \<Longrightarrow> b32_values (map (\<lambda>v. b32tab ! nat v) vs) = Some vs"
  by (simp add: b32_values_def o_def those_b32rev)

lemma no_pad_in_tab:
  assumes "\<forall>v\<in>set vs. 0 \<le> v \<and> v < 32"
  shows "CHR ''='' \<notin> set (map (\<lambda>v. b32tab ! nat v) vs)"
proof
  assume "CHR ''='' \<in> set (map (\<lambda>v. b32tab ! nat v) vs)"
  then obtain v where "v \<in> set vs" and "CHR ''='' = b32tab ! nat v"
    by auto
  with assms b32rev_tab(2) [of v] show False
    by auto
qed

lemma length_b32_quantum: "length (b32_quantum q) = 8"
  by (simp add: b32_quantum_def length_quintets)

lemma b32_values_quantum: "b32_values (b32_quantum q) = Some (quintets 8 (be_int q))"
  unfolding b32_quantum_def by (rule b32_values_tab) (simp add: quintets_range)

lemma b32_values_take_quantum:
  "b32_values (take k (b32_quantum q)) = Some (take k (quintets 8 (be_int q)))"
  unfolding b32_quantum_def take_map
  by (rule b32_values_tab) (auto dest: in_set_takeD quintets_range)

lemma no_pad_in_quantum: "CHR ''='' \<notin> set (b32_quantum q)"
  unfolding b32_quantum_def by (rule no_pad_in_tab) (simp add: quintets_range)

lemma quantum_roundtrip:
  assumes "length q = 5"
  shows "be_bytes 5 (from_quintets (quintets 8 (be_int q))) = q"
proof -
  have "0 \<le> be_int q" "be_int q < 32 ^ 8"
    using be_int_bounds [of q] assms by simp_all
  then have "from_quintets (quintets 8 (be_int q)) = be_int q"
    by (simp add: from_quintets_quintets)
  then show ?thesis
    using be_bytes_be_int [of q] assms by simp
qed

lemma be_int_zeros: "be_int (bs @ replicate j 0) = be_int bs * 256 ^ j"
proof (induction j)
  case 0
  show ?case by simp
next
  case (Suc j)
  have "be_int (bs @ replicate (Suc j) 0) = be_int ((bs @ replicate j 0) @ [0])"
    by (simp add: replicate_append_same)
  also have "\<dots> = be_int (bs @ replicate j 0) * 256"
    by (simp only: be_int_snoc) simp
  finally show ?case
    by (simp add: Suc.IH)
qed

lemma padded_quintets:
  assumes "(256 :: int) ^ j = c * 32 ^ p" and "p \<le> 8"
  shows "take (8 - p) (quintets 8 (be_int (bs @ replicate j 0))) @ replicate p 0 =
         quintets 8 (be_int (bs @ replicate j 0))"
proof -
  have "be_int (bs @ replicate j 0) = (be_int bs * c) * 32 ^ p"
    using assms(1) by (simp add: be_int_zeros)
  moreover have "quintets ((8 - p) + p) ((be_int bs * c) * 32 ^ p) =
      quintets (8 - p) (be_int bs * c) @ replicate p 0"
    by (rule quintets_shift)
  ultimately have "quintets 8 (be_int (bs @ replicate j 0)) =
      quintets (8 - p) (be_int bs * c) @ replicate p 0"
    using assms(2) by simp
  then show ?thesis
    by (simp add: length_quintets)
qed

lemma takeWhile_body:
  assumes "0 < p"
  shows "takeWhile (\<lambda>c. c \<noteq> CHR ''='') (take k (b32_quantum q) @ replicate p (CHR ''='')) =
         take k (b32_quantum q)"
proof -
  have "\<forall>c\<in>set (take k (b32_quantum q)). c \<noteq> CHR ''=''"
    using no_pad_in_quantum [of q] by (auto dest: in_set_takeD)
  moreover obtain p' where "p = Suc p'"
    using assms by (cases p) simp_all
  ultimately show ?thesis
    by (simp add: takeWhile_append2)
qed

lemma b32_last_padded:
  assumes "length bs + j = 5" and "(256 :: int) ^ j = c * 32 ^ p" and "0 < p" and "p \<le> 8"
  shows "b32_last (take (8 - p) (b32_quantum (bs @ replicate j 0)) @ replicate p (CHR ''='')) =
         (if p = 1 then Some (take 4 (bs @ replicate j 0))
          else if p = 3 then Some (take 3 (bs @ replicate j 0))
          else if p = 4 then Some (take 2 (bs @ replicate j 0))
          else if p = 6 then Some (take 1 (bs @ replicate j 0))
          else None)"
proof -
  let ?q = "bs @ replicate j 0"
  have len: "length ?q = 5"
    using assms(1) by simp
  have body: "takeWhile (\<lambda>c. c \<noteq> CHR ''='') (take (8 - p) (b32_quantum ?q) @ replicate p (CHR ''=''))
      = take (8 - p) (b32_quantum ?q)"
    using assms(3) by (rule takeWhile_body)
  have lb: "8 - length (take (8 - p) (b32_quantum ?q)) = p"
    using assms(4) by (simp add: length_b32_quantum)
  have rt: "be_bytes 5 (from_quintets (take (8 - p) (quintets 8 (be_int ?q)) @ replicate p 0)) = ?q"
    using padded_quintets [OF assms(2) assms(4), of bs] quantum_roundtrip [OF len] by simp
  show ?thesis
    unfolding b32_last_def Let_def body lb
    by (simp only: b32_values_take_quantum option.case rt) simp
qed

lemma list_of_length_8:
  assumes "length cs = 8"
  obtains c0 c1 c2 c3 c4 c5 c6 c7 where "cs = [c0, c1, c2, c3, c4, c5, c6, c7]"
  using assms by (auto simp add: numeral_eq_Suc length_Suc_conv)

lemma b32decode_full:
  assumes "length cs = 8" and "CHR ''='' \<notin> set cs"
  shows "b32decode (cs @ rest) =
         (case b32_values cs of
            None \<Rightarrow> None
          | Some vs \<Rightarrow>
              (case b32decode rest of
                 None \<Rightarrow> None
               | Some bs \<Rightarrow> Some (be_bytes 5 (from_quintets vs) @ bs)))"
proof -
  from assms(1) obtain c0 c1 c2 c3 c4 c5 c6 c7 where cs: "cs = [c0, c1, c2, c3, c4, c5, c6, c7]"
    by (rule list_of_length_8)
  with assms(2) have "c7 \<noteq> CHR ''=''"
    by auto
  then show ?thesis
    by (simp add: cs)
qed

lemma b32decode_last:
  assumes "length cs = 7"
  shows "b32decode (cs @ ''='') = b32_last (cs @ ''='')"
proof -
  have "length (cs @ ''='') = 8"
    using assms by simp
  then obtain c0 c1 c2 c3 c4 c5 c6 c7 where cs: "cs @ ''='' = [c0, c1, c2, c3, c4, c5, c6, c7]"
    by (rule list_of_length_8)
  then have "last (cs @ ''='') = c7"
    by (simp only: last.simps) simp
  then have "c7 = CHR ''=''"
    by simp
  then show ?thesis
    by (simp add: cs)
qed

lemma b32decode_b32encode: "b32decode (b32encode key) = Some key"
proof (induction key rule: b32encode.induct)
  case (1 b0 b1 b2 b3 b4 rest)
  have "b32decode (b32_quantum [b0, b1, b2, b3, b4] @ b32encode rest) =
        Some ([b0, b1, b2, b3, b4] @ rest)"
    using quantum_roundtrip [of "[b0, b1, b2, b3, b4]"]
    by (simp add: b32decode_full length_b32_quantum no_pad_in_quantum b32_values_quantum "1.IH")
  then show ?case by simp
next
  case (2 b0 b1 b2 b3)
  have "b32_last (take (8 - 1) (b32_quantum ([b0, b1, b2, b3] @ replicate 1 0)) @ replicate 1 (CHR ''='')) =
        Some (take 4 ([b0, b1, b2, b3] @ replicate 1 0))"
    by (subst b32_last_padded [where c = 8]) simp_all
  then show ?case
    by (simp add: b32decode_last [of "take 7 (b32_quantum [b0, b1, b2, b3, 0])"] length_b32_quantum)
next
  case (3 b0 b1 b2)
  have "b32_last (take (8 - 3) (b32_quantum ([b0, b1, b2] @ replicate 2 0)) @ replicate 3 (CHR ''='')) =
        Some (take 3 ([b0, b1, b2] @ replicate 2 0))"
    by (subst b32_last_padded [where c = 2]) simp_all
  then show ?case
    using b32decode_last [of "take 5 (b32_quantum [b0, b1, b2, 0, 0]) @ ''==''"]
    by (simp add: length_b32_quantum numeral_eq_Suc)
next
  case (4 b0 b1)
  have "b32_last (take (8 - 4) (b32_quantum ([b0, b1] @ replicate 3 0)) @ replicate 4 (CHR ''='')) =
        Some (take 2 ([b0, b1] @ replicate 3 0))"
    by (subst b32_last_padded [where c = 16]) simp_all
  then show ?case
    using b32decode_last [of "take 4 (b32_quantum [b0, b1, 0, 0, 0]) @ ''===''"]
    by (simp add: length_b32_quantum numeral_eq_Suc)
next
  case (5 b0)
  have "b32_last (take (8 - 6) (b32_quantum ([b0] @ replicate 4 0)) @ replicate 6 (CHR ''='')) =
        Some (take 1 ([b0] @ replicate 4 0))"
    by (subst b32_last_padded [where c = 4]) simp_all
  then show ?case
    using b32decode_last [of "take 2 (b32_quantum [b0, 0, 0, 0, 0]) @ ''=====''"]
    by (simp add: length_b32_quantum numeral_eq_Suc)
next
  case 6
  show ?case by simp
qed

subsection \<open>Quoting and the query string\<close>

lemma upt_16: "[0..<16] = [0, 1, 2, 3, 4, 5, 6, 7, 8, 9, 10, 11, 12, 13, 14, 15]"
  by code_simp

lemma hex_digit_all:
  "\<forall>d\<in>set [0..<16]. hex_value (hex_digit d) = Some d \<and> hex_digit d \<in> set always_safe"
  unfolding hex_value_def hex_digit_def always_safe_def upt_16 by simp

lemma hex_digit:
  assumes "d < 16"
  shows "hex_value (hex_digit d) = Some d" and "hex_digit d \<in> set always_safe"
  using hex_digit_all assms by simp_all

lemma always_safe_plain:
  assumes "c \<in> set always_safe"
  shows "c \<noteq> CHR ''%''" "c \<noteq> CHR ''+''" "c \<noteq> CHR '' ''" "c \<noteq> CHR ''&''"
    "c \<noteq> CHR ''=''" "c \<noteq> CHR ''?''"
  using assms by (auto simp add: always_safe_def)

lemma quoter_chars:
  assumes "x \<in> set (quoter safe c)"
  shows "x \<in> set always_safe \<or> x \<in> set safe \<or> x = CHR ''%''"
proof -
  have "of_char c div 16 < (16 :: nat)" "of_char c mod 16 < (16 :: nat)"
    by (simp_all add: less_mult_imp_div_less)
  then show ?thesis
    using assms hex_digit(2) by (auto simp add: quoter_def split: if_splits)
qed

lemma quote_chars:
  assumes "x \<in> set (quote s safe)"
  shows "x \<in> set always_safe \<or> x \<in> set safe \<or> x = CHR ''%''"
  using assms quoter_chars by (auto simp add: quote_def)

lemma quote_plus_concat: "quote_plus s = concat (map quoter_plus s)"
proof (cases "CHR '' '' \<in> set s")
  case False
  then have "map (quoter []) s = map quoter_plus s"
    by (auto simp add: quoter_plus_def)
  then have "concat (map (quoter []) s) = concat (map quoter_plus s)"
    by (rule arg_cong)
  with False show ?thesis
    by (simp add: quote_plus_def quote_def)
next
  case True
  have "map (\<lambda>c. if c = CHR '' '' then CHR ''+'' else c) (quoter '' '' c) = quoter_plus c" for c
  proof (cases "c = CHR '' ''")
    case True
    then show ?thesis by (simp add: quoter_plus_def quoter_def)
  next
    case False
    have "x \<noteq> CHR '' ''" if "x \<in> set (quoter [] c)" for x
      using quoter_chars [OF that] always_safe_plain(3) [of x] by auto
    then have "map (\<lambda>c. if c = CHR '' '' then CHR ''+'' else c) (quoter [] c) = quoter [] c"
      by (simp add: map_idI)
    moreover have "quoter '' '' c = quoter [] c"
      using False by (simp add: quoter_def)
    ultimately show ?thesis
      using False by (simp add: quoter_plus_def)
  qed
  then have "map (\<lambda>c. if c = CHR '' '' then CHR ''+'' else c) (concat (map (quoter '' '') s)) =
      concat (map quoter_plus s)"
    by (simp add: map_concat o_def)
  with True show ?thesis
    by (simp add: quote_plus_def quote_def)
qed

lemma quote_plus_chars:
  assumes "x \<in> set (quote_plus s)"
  shows "x \<in> set always_safe \<or> x = CHR ''%'' \<or> x = CHR ''+''"
proof -
  from assms obtain c where "x \<in> set (quoter_plus c)"
    by (auto simp add: quote_plus_concat)
  then show ?thesis
    using quoter_chars [of x "[]" c] by (auto simp add: quoter_plus_def split: if_splits)
qed

lemma quote_plus_no_separators:
  "CHR ''&'' \<notin> set (quote_plus s)" "CHR ''='' \<notin> set (quote_plus s)"
  using quote_plus_chars [of _ s] always_safe_plain(4,5) by auto

lemma quote_no_question_mark: "CHR ''?'' \<notin> set (quote s ''/'')"
  using quote_chars [of "CHR ''?''" s "''/''"] always_safe_plain(6) by auto

lemma unquote_plain: "c \<noteq> CHR ''%'' \<Longrightarrow> unquote (c # cs) = c # unquote cs"
proof (cases cs)
  case Nil
  then show ?thesis by simp
next
  case (Cons a as)
  assume "c \<noteq> CHR ''%''"
  then show ?thesis
    using Cons by (cases as) simp_all
qed

lemma unquote_escape:
  "hex_value a = Some h \<Longrightarrow> hex_value b = Some l \<Longrightarrow>
   unquote (CHR ''%'' # a # b # rest) = char_of (16 * h + l) # unquote rest"
  by simp

lemma unquote_plus_quoter_plus:
  "unquote (map (\<lambda>c. if c = CHR ''+'' then CHR '' '' else c) (quoter_plus c @ rest)) =
   c # unquote (map (\<lambda>c. if c = CHR ''+'' then CHR '' '' else c) rest)"
proof -
  let ?f = "\<lambda>c. if c = CHR ''+'' then CHR '' '' else c"
  consider (space) "c = CHR '' ''" | (safe) "c \<noteq> CHR '' ''" "c \<in> set always_safe"
    | (escaped) "c \<noteq> CHR '' ''" "c \<notin> set always_safe"
    by blast
  then show ?thesis
  proof cases
    case space
    then show ?thesis
      by (simp add: quoter_plus_def unquote_plain)
  next
    case safe
    then have "c \<noteq> CHR ''+''" "c \<noteq> CHR ''%''"
      using always_safe_plain(1,2) by blast+
    with safe show ?thesis
      by (simp add: quoter_plus_def quoter_def unquote_plain)
  next
    case escaped
    let ?h = "of_char c div 16 :: nat" and ?l = "of_char c mod 16 :: nat"
    have hl: "?h < 16" "?l < 16"
      by (simp_all add: less_mult_imp_div_less)
    then have plain: "hex_digit ?h \<noteq> CHR ''+''" "hex_digit ?l \<noteq> CHR ''+''"
      using hex_digit(2) always_safe_plain(2) by blast+
    have "char_of (16 * ?h + ?l) = c"
      by simp
    then show ?thesis
      using escaped plain hex_digit(1) [OF hl(1)] hex_digit(1) [OF hl(2)]
      by (simp add: quoter_plus_def quoter_def)
  qed
qed

lemma unquote_plus_quote_plus: "unquote_plus (quote_plus s) = s"
proof -
  have "unquote (map (\<lambda>c. if c = CHR ''+'' then CHR '' '' else c) (concat (map quoter_plus s))) = s"
    by (induction s) (simp_all add: unquote_plus_quoter_plus del: map_append)
  then show ?thesis
    by (simp add: unquote_plus_def quote_plus_concat)
qed

lemma split_on_plain: "sep \<notin> set x \<Longrightarrow> split_on sep x = [x]"
  by (induction x) auto

lemma split_on_first:
  "sep \<notin> set x \<Longrightarrow> split_on sep (x @ sep # rest) = x # split_on sep rest"
  by (induction x) auto

lemma split_on_join:
  assumes "xs \<noteq> []" and "\<forall>x\<in>set xs. sep \<notin> set x"
  shows "split_on sep (join [sep] xs) = xs"
  using assms
proof (induction "[sep]" xs rule: join.induct)
  case 1
  then show ?case by simp
next
  case (2 x)
  then show ?case by (simp add: split_on_plain)
next
  case (3 x y ys)
  then show ?case by (simp add: split_on_first)
qed

lemma split_pair:
  assumes "CHR ''='' \<notin> set k"
  shows "takeWhile (\<lambda>c. c \<noteq> CHR ''='') (k @ ''='' @ v) = k"
    and "drop 1 (dropWhile (\<lambda>c. c \<noteq> CHR ''='') (k @ ''='' @ v)) = v"
  using assms by (induction k) auto

lemma parse_qsl_urlencode:
  assumes "query \<noteq> []"
  shows "parse_qsl (urlencode query) = query"
proof -
  let ?enc = "\<lambda>(k, v). quote_plus k @ ''='' @ quote_plus v"
  have "\<forall>p\<in>set (map ?enc query). CHR ''&'' \<notin> set p"
    using quote_plus_no_separators(1) by auto
  then have "split_on (CHR ''&'') (join ''&'' (map ?enc query)) = map ?enc query"
    using assms by (intro split_on_join) simp_all
  then have "parse_qsl (urlencode query) =
      map (\<lambda>p. (unquote_plus (takeWhile (\<lambda>c. c \<noteq> CHR ''='') p),
                 unquote_plus (drop 1 (dropWhile (\<lambda>c. c \<noteq> CHR ''='') p))))
        (map ?enc query)"
    by (simp add: parse_qsl_def urlencode_def)
  also have "\<dots> = map (\<lambda>(k, v). (unquote_plus (quote_plus k), unquote_plus (quote_plus v))) query"
    using split_pair [OF quote_plus_no_separators(2)]
    by (simp add: case_prod_unfold)
  also have "\<dots> = query"
    by (simp add: unquote_plus_quote_plus)
  finally show ?thesis .
qed

lemma dropWhile_to_first:
  "c \<notin> set p \<Longrightarrow> dropWhile (\<lambda>x. x \<noteq> c) (p @ c # q) = c # q"
  by (induction p) auto

lemma uri_query_key_uri:
  "uri_query (key_uri items key issuer accountname digits step) =
   urlencode (items (key_uri_params key issuer digits step))"
proof -
  let ?prefix = "''otpauth://totp/'' @ quote issuer ''/'' @ '':'' @ quote accountname ''/''"
  have "CHR ''?'' \<notin> set ?prefix"
    using quote_no_question_mark by auto
  then have "dropWhile (\<lambda>c. c \<noteq> CHR ''?'') (?prefix @ CHR ''?'' # q) = CHR ''?'' # q" for q
    by (rule dropWhile_to_first)
  then show ?thesis
    by (simp add: uri_query_def key_uri_def)
qed

text \<open>
  C8. Whatever the order of the dictionary's items, the \<open>secret\<close> parameter of the URI
  that \<open>key_uri\<close> builds is the Base32 encoding of the key, and decoding it gives the
  key back, byte for byte.
\<close>

theorem key_uri_secret_roundtrip:
  assumes "distinct (map fst (items (key_uri_params key issuer digits step)))"
    and "set (items (key_uri_params key issuer digits step)) =
         set (key_uri_params key issuer digits step)"
  shows "uri_secret (key_uri items key issuer accountname digits step) = Some (b32encode key)
         \<and> b32decode (b32encode key) = Some key
         \<and> decode_secret (key_uri items key issuer accountname digits step) = Some key"
proof -
  let ?ps = "items (key_uri_params key issuer digits step)"
  have mem: "(''secret'', b32encode key) \<in> set ?ps"
    by (simp only: assms(2)) (simp add: key_uri_params_def)
  then have "?ps \<noteq> []"
    by auto
  then have "parse_qsl (uri_query (key_uri items key issuer accountname digits step)) = ?ps"
    by (simp add: uri_query_key_uri parse_qsl_urlencode)
  then have "uri_secret (key_uri items key issuer accountname digits step) = Some (b32encode key)"
    using assms(1) mem by (simp add: uri_secret_def)
  then show ?thesis
    by (simp add: decode_secret_def b32decode_b32encode)
qed

theorem key_uri_secret_roundtrip_witness:
  "decode_secret
     (key_uri id (ascii ''12345678901234567890'') ''Example Co'' ''alice@example.com'' 6 30)
     = Some (ascii ''12345678901234567890'')
   \<and> decode_secret
     (key_uri rev (ascii ''12345678901234567890'') ''Example Co'' ''alice@example.com'' 6 30)
     = Some (ascii ''12345678901234567890'')"
proof -
  let ?ps = "key_uri_params (ascii ''12345678901234567890'') ''Example Co'' 6 30"
  have d: "distinct (map fst (id ?ps))" "distinct (map fst (rev ?ps))"
    by (simp_all add: key_uri_params_def)
  have s: "set (id ?ps) = set ?ps" "set (rev ?ps) = set ?ps"
    by simp_all
  show ?thesis
    using key_uri_secret_roundtrip [of id, OF d(1) s(1), of "''alice@example.com''"]
      key_uri_secret_roundtrip [of rev, OF d(2) s(2), of "''alice@example.com''"]
    by simp
qed

end
